theory Spec2Isabelle
  imports Main "HOL-Library.Multiset"
begin

section \<open>Errors and checked list access\<close>

text \<open>
  The exceptions the Python code can raise, as values. \<open>IndexError\<close>, \<open>TypeError\<close>,
  \<open>ValueError\<close> and \<open>KeyError\<close> are Python's own; \<open>NodeNotInGraph\<close>, \<open>NotEulerian\<close>
  and \<open>DisconnectedGraph\<close> are the fatal conditions of the graph library.
\<close>

datatype error = IndexError | TypeError | ValueError | KeyError | NodeNotInGraph | NotEulerian | DisconnectedGraph

definition get :: "'a list \<Rightarrow> nat \<Rightarrow> error + 'a" where
  "get xs i = (if i < length xs then Inr (xs ! i) else Inl IndexError)"

definition bind :: "error + 'a \<Rightarrow> ('a \<Rightarrow> error + 'b) \<Rightarrow> error + 'b" where
  "bind m f = (case m of Inl e \<Rightarrow> Inl e | Inr x \<Rightarrow> f x)"

fun mapM :: "('a \<Rightarrow> error + 'b) \<Rightarrow> 'a list \<Rightarrow> error + 'b list" where
  "mapM f [] = Inr []"
| "mapM f (x # xs) = bind (f x) (\<lambda>y. bind (mapM f xs) (\<lambda>ys. Inr (y # ys)))"

section \<open>Graphs\<close>

text \<open>
  A graph of the library (\<open>nx.Graph\<close>, \<open>nx.MultiGraph\<close>) is kept as its nodes in
  insertion order and its edges in insertion order, each edge with its \<open>weight\<close>
  attribute. A \<open>MultiGraph\<close> may hold several edges between the same two nodes; a
  \<open>Graph\<close> holds at most one, and \<open>add_edge\<close> on an existing edge overwrites its weight.
\<close>

record 'w graph =
  nodes :: "nat list"
  edges :: "(nat \<times> nat \<times> 'w) list"

definition empty_graph :: "'w graph" where
  "empty_graph = \<lparr>nodes = [], edges = []\<rparr>"

definition add_node :: "nat \<Rightarrow> nat list \<Rightarrow> nat list" where
  "add_node v ns = (if v \<in> set ns then ns else ns @ [v])"

definition same_ends :: "nat \<Rightarrow> nat \<Rightarrow> nat \<times> nat \<times> 'w \<Rightarrow> bool" where
  "same_ends u v e = ((fst e = u \<and> fst (snd e) = v) \<or> (fst e = v \<and> fst (snd e) = u))"

definition add_edge :: "nat \<Rightarrow> nat \<Rightarrow> 'w \<Rightarrow> 'w graph \<Rightarrow> 'w graph" where
  "add_edge u v w g =
     \<lparr>nodes = add_node v (add_node u (nodes g)),
      edges = (if list_ex (same_ends u v) (edges g)
               then map (\<lambda>e. if same_ends u v e then (fst e, fst (snd e), w) else e) (edges g)
               else edges g @ [(u, v, w)])\<rparr>"

definition multi_add_edge :: "nat \<Rightarrow> nat \<Rightarrow> 'w \<Rightarrow> 'w graph \<Rightarrow> 'w graph" where
  "multi_add_edge u v w g =
     \<lparr>nodes = add_node v (add_node u (nodes g)), edges = edges g @ [(u, v, w)]\<rparr>"

definition remove_node :: "nat \<Rightarrow> 'w graph \<Rightarrow> 'w graph" where
  "remove_node v g =
     \<lparr>nodes = filter (\<lambda>n. n \<noteq> v) (nodes g),
      edges = filter (\<lambda>e. fst e \<noteq> v \<and> fst (snd e) \<noteq> v) (edges g)\<rparr>"

text \<open>\<open>graph[v]\<close>: the neighbours of \<open>v\<close> with the weight of the joining edge.\<close>

definition adj :: "'w graph \<Rightarrow> nat \<Rightarrow> (nat \<times> 'w) list" where
  "adj g v = List.map_filter
     (\<lambda>e. if fst e = v then Some (fst (snd e), snd (snd e))
          else if fst (snd e) = v then Some (fst e, snd (snd e)) else None) (edges g)"

text \<open>\<open>graph.degree[v]\<close>: the number of edge ends at \<open>v\<close> (a self-loop counts twice).\<close>

definition degree :: "'w graph \<Rightarrow> nat \<Rightarrow> nat" where
  "degree g v = length (filter (\<lambda>e. fst e = v) (edges g))
              + length (filter (\<lambda>e. fst (snd e) = v) (edges g))"

text \<open>An edge without its direction: the smaller end first.\<close>

definition uedge :: "nat \<times> nat \<times> 'w \<Rightarrow> nat \<times> nat \<times> 'w" where
  "uedge e = (min (fst e) (fst (snd e)), max (fst e) (fst (snd e)), snd (snd e))"

definition uedges :: "'w graph \<Rightarrow> (nat \<times> nat \<times> 'w) multiset" where
  "uedges g = image_mset uedge (mset (edges g))"

definition adj_rel :: "'w graph \<Rightarrow> (nat \<times> nat) set" where
  "adj_rel g = set (map (\<lambda>e. (fst e, fst (snd e))) (edges g))
             \<union> set (map (\<lambda>e. (fst (snd e), fst e)) (edges g))"

definition connected :: "'w graph \<Rightarrow> bool" where
  "connected g = (\<forall>u \<in> set (nodes g). \<forall>v \<in> set (nodes g). u = v \<or> (u, v) \<in> (adj_rel g)\<^sup>+)"

text \<open>
  What every \<open>nx.Graph\<close> without self-loops satisfies: no node is listed twice, an edge
  joins two different nodes of the graph, and no two edges join the same pair.
\<close>

definition simple_graph :: "'w graph \<Rightarrow> bool" where
  "simple_graph g =
     (distinct (nodes g) \<and>
      (\<forall>e \<in> set (edges g). fst e \<in> set (nodes g) \<and> fst (snd e) \<in> set (nodes g) \<and> fst e \<noteq> fst (snd e)) \<and>
      distinct (map (\<lambda>e. (min (fst e) (fst (snd e)), max (fst e) (fst (snd e)))) (edges g)))"

text \<open>\<open>graph.edges.data()\<close>: node by node, every edge once, reported from the end that
  comes first among the nodes.\<close>

fun edges_data_from :: "'w graph \<Rightarrow> nat list \<Rightarrow> nat list \<Rightarrow> (nat \<times> nat \<times> 'w) list" where
  "edges_data_from g seen [] = []"
| "edges_data_from g seen (n # ns) =
     map (\<lambda>(nbr, w). (n, nbr, w)) (filter (\<lambda>(nbr, w). nbr \<notin> set seen) (adj g n))
     @ edges_data_from g (n # seen) ns"

definition edges_data :: "'w graph \<Rightarrow> (nat \<times> nat \<times> 'w) list" where
  "edges_data g = edges_data_from g [] (nodes g)"

text \<open>\<open>graph[u][v]["weight"]\<close>, a \<open>KeyError\<close> when there is no such edge.\<close>

definition edge_weight :: "'w graph \<Rightarrow> nat \<Rightarrow> nat \<Rightarrow> error + 'w" where
  "edge_weight g u v = (case map_of (adj g u) v of None \<Rightarrow> Inl KeyError | Some w \<Rightarrow> Inr w)"

text \<open>\<open>nx.MultiGraph(graph)\<close>: the nodes and every edge of the graph, once.\<close>

definition multigraph_of :: "'w graph \<Rightarrow> 'w graph" where
  "multigraph_of g = \<lparr>nodes = nodes g, edges = edges_data g\<rparr>"

text \<open>\<open>remove_node\<close> of a node that is not in the graph is an error of the library.\<close>

definition checked_remove_node :: "nat \<Rightarrow> 'w graph \<Rightarrow> error + 'w graph" where
  "checked_remove_node v g = (if v \<in> set (nodes g) then Inr (remove_node v g) else Inl NodeNotInGraph)"

section \<open>The algorithms of the graph library\<close>

subsection \<open>Minimum spanning tree\<close>

text \<open>
  Modelled from the spec: \<open>nx.minimum_spanning_tree(graph, algorithm="prim")\<close>, a function
  of the networkx library, whose code is not among the sources. Section 4.2 of the spec:
  start from an arbitrary vertex (here the first node of the graph), repeatedly add the
  minimum-weight edge crossing the current tree/non-tree boundary, until all vertices are
  included; exactly \<open>N - 1\<close> edges; ties among equal-weight candidate edges are broken by
  the lowest destination-vertex index; a "disconnected graph" failure if fewer than
  \<open>N - 1\<close> edges can be added. A weight that is not a number (\<open>None\<close>) cannot be compared:
  \<open>TypeError\<close>. The tree has the nodes of the graph and the chosen edges, each directed
  from the tree to the vertex it added.
\<close>

definition numeric_edges :: "(nat \<times> nat \<times> int option) list \<Rightarrow> error + (nat \<times> nat \<times> int) list" where
  "numeric_edges es =
     mapM (\<lambda>(u, v, w). case w of None \<Rightarrow> Inl TypeError | Some x \<Rightarrow> Inr (u, v, x)) es"

definition crossing :: "(nat \<times> nat \<times> int) list \<Rightarrow> nat list \<Rightarrow> (nat \<times> nat \<times> int) list" where
  "crossing es visited = List.map_filter
     (\<lambda>(u, v, w). if u \<in> set visited \<and> v \<notin> set visited then Some (u, v, w)
                 else if v \<in> set visited \<and> u \<notin> set visited then Some (v, u, w) else None) es"

definition lighter :: "nat \<times> nat \<times> int \<Rightarrow> nat \<times> nat \<times> int \<Rightarrow> bool" where
  "lighter c e = (snd (snd c) < snd (snd e) \<or> (snd (snd c) = snd (snd e) \<and> fst (snd c) < fst (snd e)))"

fun lightest :: "nat \<times> nat \<times> int \<Rightarrow> (nat \<times> nat \<times> int) list \<Rightarrow> nat \<times> nat \<times> int" where
  "lightest e [] = e"
| "lightest e (c # cs) = lightest (if lighter c e then c else e) cs"

fun prim_steps ::
  "nat \<Rightarrow> (nat \<times> nat \<times> int) list \<Rightarrow> nat list \<Rightarrow> (nat \<times> nat \<times> int) list \<Rightarrow> error + (nat \<times> nat \<times> int) list" where
  "prim_steps 0 es visited tree = Inr tree"
| "prim_steps (Suc n) es visited tree =
     (case crossing es visited of
        [] \<Rightarrow> Inl DisconnectedGraph
      | c # cs \<Rightarrow> (let e = lightest c cs in prim_steps n es (visited @ [fst (snd e)]) (tree @ [e])))"

definition nx_minimum_spanning_tree :: "int option graph \<Rightarrow> error + int option graph" where
  "nx_minimum_spanning_tree g =
     bind (numeric_edges (edges g)) (\<lambda>es.
     bind (case nodes g of [] \<Rightarrow> Inr [] | r # _ \<Rightarrow> prim_steps (length (nodes g) - 1) es [r] []) (\<lambda>tree.
       Inr \<lparr>nodes = nodes g, edges = map (\<lambda>(u, v, w). (u, v, Some w)) tree\<rparr>))"

subsection \<open>Eulerian circuit\<close>

text \<open>
  Modelled from the spec: \<open>nx.eulerian_circuit(graph, source)\<close>, a function of the networkx
  library, whose code is not among the sources. Section 4.5 of the spec: Hierholzer's
  algorithm, "repeatedly extend a walk until stuck, splice in circuits found from any
  vertex on the current walk with unused incident edges, until all edges are consumed";
  a graph that is disconnected or has a vertex of odd degree is the fatal "not Eulerian"
  error (so is the graph with no node, for which the library refuses to answer). The
  result is the list of the edges walked, each as the pair of its ends in walking order.
\<close>

fun take_edge :: "nat \<Rightarrow> (nat \<times> nat) list \<Rightarrow> (nat \<times> (nat \<times> nat) list) option" where
  "take_edge v [] = None"
| "take_edge v ((a, b) # R) =
     (if a = v then Some (b, R)
      else if b = v then Some (a, R)
      else map_option (\<lambda>(w, R'). (w, (a, b) # R')) (take_edge v R))"

lemma take_edge_length: "take_edge v R = Some (w, R') \<Longrightarrow> length R = Suc (length R')"
  by (induction R arbitrary: R') (auto split: if_splits)

function extend_walk :: "nat \<Rightarrow> (nat \<times> nat) list \<Rightarrow> nat list \<times> (nat \<times> nat) list" where
  "extend_walk v R =
     (case take_edge v R of
        None \<Rightarrow> ([v], R)
      | Some (w, R') \<Rightarrow> (case extend_walk w R' of (walk, R'') \<Rightarrow> (v # walk, R'')))"
  by pat_completeness auto
termination
  by (relation "measure (\<lambda>(v, R). length R)") (auto dest: take_edge_length)

declare extend_walk.simps [simp del]

lemma extend_walk_length: "extend_walk v R = (walk, R') \<Longrightarrow> length R' \<le> length R"
proof (induction v R arbitrary: walk R' rule: extend_walk.induct)
  case (1 v R)
  show ?case
  proof (cases "take_edge v R")
    case None
    with "1.prems" show ?thesis by (simp add: extend_walk.simps [of v R])
  next
    case (Some p)
    obtain w R1 where p: "p = (w, R1)" by (cases p)
    obtain walk1 R2 where rec: "extend_walk w R1 = (walk1, R2)" by (cases "extend_walk w R1")
    from "1.prems" Some p rec have "R' = R2" by (simp add: extend_walk.simps [of v R])
    moreover from "1.IH" [OF Some [unfolded p] refl rec] have "length R2 \<le> length R1" .
    moreover from Some p have "length R = Suc (length R1)" by (simp add: take_edge_length)
    ultimately show ?thesis by simp
  qed
qed

lemma extend_walk_shorter:
  assumes "take_edge v R \<noteq> None" and "extend_walk v R = (walk, R')"
  shows "length R' < length R"
proof -
  from assms(1) obtain w R1 where some: "take_edge v R = Some (w, R1)" by auto
  obtain walk1 R2 where rec: "extend_walk w R1 = (walk1, R2)" by (cases "extend_walk w R1")
  from assms(2) some rec have "R' = R2" by (simp add: extend_walk.simps [of v R])
  with extend_walk_length [OF rec] take_edge_length [OF some] show ?thesis by simp
qed

lemma extend_walk_consumes:
  "take_edge v R = Some p \<Longrightarrow> (walk, R') = extend_walk v R \<Longrightarrow> length R' < length R"
  using extend_walk_shorter [of v R walk R'] by simp

function splice_circuits :: "nat list \<Rightarrow> (nat \<times> nat) list \<Rightarrow> nat list \<times> (nat \<times> nat) list" where
  "splice_circuits [] R = ([], R)"
| "splice_circuits (v # rest) R =
     (if take_edge v R \<noteq> None
      then (case extend_walk v R of (circuit, R') \<Rightarrow> splice_circuits (circuit @ rest) R')
      else (case splice_circuits rest R of (walk, R') \<Rightarrow> (v # walk, R')))"
  by pat_completeness auto
termination
  by (relation "measures [\<lambda>(walk, R). length R, \<lambda>(walk, R). length walk]")
     (auto dest: extend_walk_consumes)

declare splice_circuits.simps [simp del]

definition is_eulerian :: "'w graph \<Rightarrow> bool" where
  "is_eulerian g = (nodes g \<noteq> [] \<and> (\<forall>v \<in> set (nodes g). even (degree g v)) \<and> connected g)"

definition nx_eulerian_circuit :: "'w graph \<Rightarrow> nat \<Rightarrow> error + (nat \<times> nat) list" where
  "nx_eulerian_circuit g source =
     (if \<not> is_eulerian g then Inl NotEulerian
      else if source \<notin> set (nodes g) then Inl KeyError
      else (let walk = fst (splice_circuits [source] (map (\<lambda>(u, v, w). (u, v)) (edges g)))
            in Inr (zip walk (tl walk))))"

subsection \<open>Maximum-weight matching\<close>

text \<open>
  Modelled from the spec: \<open>nx.max_weight_matching(graph, maxcardinality=True)\<close>, a function
  of the networkx library, whose code is not among the sources. Section 4.4 of the spec: a
  maximum-weight matching under the maximum-cardinality constraint, that is a set of
  vertex-disjoint edges that has the most edges any matching of the graph has and, among
  those, the largest total weight. The model looks at every set of edges.
\<close>

definition is_matching :: "(nat \<times> nat \<times> int) list \<Rightarrow> bool" where
  "is_matching m = distinct (concat (map (\<lambda>(u, v, w). [u, v]) m))"

definition matching_weight :: "(nat \<times> nat \<times> int) list \<Rightarrow> int" where
  "matching_weight m = sum_list (map (\<lambda>(u, v, w). w) m)"

definition better_matching :: "(nat \<times> nat \<times> int) list \<Rightarrow> (nat \<times> nat \<times> int) list \<Rightarrow> bool" where
  "better_matching m best =
     (length best < length m \<or> (length best = length m \<and> matching_weight best < matching_weight m))"

fun best_matching ::
  "(nat \<times> nat \<times> int) list \<Rightarrow> (nat \<times> nat \<times> int) list list \<Rightarrow> (nat \<times> nat \<times> int) list" where
  "best_matching best [] = best"
| "best_matching best (m # ms) = best_matching (if better_matching m best then m else best) ms"

definition nx_max_weight_matching :: "int graph \<Rightarrow> (nat \<times> nat) list" where
  "nx_max_weight_matching g =
     map (\<lambda>(u, v, w). (u, v)) (best_matching [] (filter is_matching (subseqs (edges g))))"

section \<open>tsr.py\<close>

text \<open>
  \<open>_create_weighted_graph\<close>: one \<open>add_edge(i, j, weight=costMatrix[i][j])\<close> for every
  \<open>i\<close> in \<open>range(len(costMatrix))\<close> and \<open>j\<close> in \<open>range(i + 1, len(costMatrix[i]))\<close>.
\<close>

definition create_weighted_graph :: "'w list list \<Rightarrow> 'w graph" where
  "create_weighted_graph costMatrix =
     fold (\<lambda>i g. fold (\<lambda>j g. add_edge i j (costMatrix ! i ! j) g) [Suc i ..< length (costMatrix ! i)] g)
       [0 ..< length costMatrix] empty_graph"

text \<open>
  \<open>_duplicate_weighted_graph\<close>: for every node \<open>v\<close> and every neighbour \<open>w\<close> of \<open>v\<close>,
  one new edge of the multigraph with the weight of the edge \<open>v\<close>--\<open>w\<close>.
\<close>

definition duplicate_weighted_graph :: "'w graph \<Rightarrow> 'w graph" where
  "duplicate_weighted_graph g =
     fold (\<lambda>v d. fold (\<lambda>(w, x) d. multi_add_edge v w x d) (adj g v) d) (nodes g) empty_graph"

text \<open>
  \<open>_create_hamiltonian_path\<close>: the loop keeps a vertex on its first appearance;
  \<open>eulerianPath[0]\<close> is appended at the end and raises on an empty path.
\<close>

fun hamiltonian_loop :: "nat list \<Rightarrow> nat list \<Rightarrow> nat set \<Rightarrow> nat list" where
  "hamiltonian_loop [] hamiltonianPath existedVertice = hamiltonianPath"
| "hamiltonian_loop (vertex # rest) hamiltonianPath existedVertice =
     (if vertex \<notin> existedVertice
      then hamiltonian_loop rest (hamiltonianPath @ [vertex]) (insert vertex existedVertice)
      else hamiltonian_loop rest hamiltonianPath existedVertice)"

definition create_hamiltonian_path :: "nat list \<Rightarrow> error + nat list" where
  "create_hamiltonian_path eulerianPath =
     bind (get eulerianPath 0) (\<lambda>first. Inr (hamiltonian_loop eulerianPath [] {} @ [first]))"

text \<open>
  \<open>_create_eulerian_path\<close>: the first end of every edge of the circuit, then the second
  end of the last edge; \<open>eulerianEdges[len(eulerianEdges) - 1]\<close> raises on an empty list.
\<close>

definition create_eulerian_path :: "'w graph \<Rightarrow> nat \<Rightarrow> error + nat list" where
  "create_eulerian_path eulerianGraph start =
     bind (nx_eulerian_circuit eulerianGraph start) (\<lambda>eulerianEdges.
     bind (get eulerianEdges (length eulerianEdges - 1)) (\<lambda>lastEdge.
       Inr (map fst eulerianEdges @ [snd lastEdge])))"

text \<open>
  \<open>_remove_even_degree_vertices\<close>: a copy of the graph, from which every node of the
  spanning tree that has even degree in the tree is removed.
\<close>

definition remove_even_degree_vertices :: "'w graph \<Rightarrow> 'w graph \<Rightarrow> error + 'w graph" where
  "remove_even_degree_vertices g spanningTree =
     fold (\<lambda>v removedGraph.
             if degree spanningTree v mod 2 = 0
             then bind removedGraph (checked_remove_node v) else removedGraph)
       (nodes spanningTree) (Inr g)"

text \<open>
  \<open>_match_minimal_weight\<close>: a copy of the graph with every weight negated, the
  maximum-weight maximum-cardinality matching of the copy, and the graph of the matched
  edges with their weights in the given graph. Negating \<open>None\<close> raises \<open>TypeError\<close>.
\<close>

definition match_minimal_weight :: "int option graph \<Rightarrow> error + int option graph" where
  "match_minimal_weight g =
     bind (mapM (\<lambda>(u, v, w). case w of None \<Rightarrow> Inl TypeError | Some x \<Rightarrow> Inr (u, v, - x)) (edges_data g))
       (\<lambda>negated.
          let tmpGraph = fold (\<lambda>(u, v, w) t. add_edge u v w t) negated empty_graph;
              matching = nx_max_weight_matching tmpGraph
          in fold (\<lambda>(u, v) matchingGraph.
                     bind matchingGraph (\<lambda>m. bind (edge_weight g u v) (\<lambda>w. Inr (add_edge u v w m))))
               matching (Inr empty_graph))"

text \<open>
  \<open>_merge_two_graphs\<close>: the first graph as a multigraph, to which every edge of the
  second graph is added.
\<close>

definition merge_two_graphs :: "'w graph \<Rightarrow> 'w graph \<Rightarrow> 'w graph" where
  "merge_two_graphs graph1 graph2 =
     fold (\<lambda>(u, v, w) mergedGraph. multi_add_edge u v w mergedGraph) (edges_data graph2)
       (multigraph_of graph1)"

text \<open>The two orchestrators, step by step as in the source.\<close>

definition double_tree_algorithm :: "int option list list \<Rightarrow> nat \<Rightarrow> error + nat list" where
  "double_tree_algorithm costMatrix start =
     (let graph = create_weighted_graph costMatrix in
      bind (nx_minimum_spanning_tree graph) (\<lambda>spanningTree.
        let duplicatedSpanningTree = duplicate_weighted_graph spanningTree in
        bind (create_eulerian_path duplicatedSpanningTree start) (\<lambda>eulerianPath.
          create_hamiltonian_path eulerianPath)))"

definition christofides_algorithm :: "int option list list \<Rightarrow> nat \<Rightarrow> error + nat list" where
  "christofides_algorithm costMatrix start =
     (let graph = create_weighted_graph costMatrix in
      bind (nx_minimum_spanning_tree graph) (\<lambda>spanningTree.
      bind (remove_even_degree_vertices graph spanningTree) (\<lambda>removedGraph.
      bind (match_minimal_weight removedGraph) (\<lambda>matchingGraph.
        let mergedGraph = merge_two_graphs spanningTree matchingGraph in
        bind (create_eulerian_path mergedGraph start) (\<lambda>eulerianPath.
          create_hamiltonian_path eulerianPath)))))"

section \<open>measurement.py\<close>

text \<open>
  \<open>_shuffle_cost_matrix\<close>, with the list drawn by \<open>sample(indices, len(indices))\<close> as the
  argument \<open>shuffledIndices\<close>. \<open>list.index\<close> raises \<open>ValueError\<close> when the value is absent.
\<close>

fun index_of :: "nat list \<Rightarrow> nat \<Rightarrow> error + nat" where
  "index_of [] x = Inl ValueError"
| "index_of (y # ys) x = (if y = x then Inr 0 else bind (index_of ys x) (\<lambda>i. Inr (Suc i)))"

definition shuffle_cost_matrix :: "nat list \<Rightarrow> 'w list list \<Rightarrow> nat \<Rightarrow> error + ('w list list \<times> nat)" where
  "shuffle_cost_matrix shuffledIndices costMatrix start =
     (let indices = [0 ..< length costMatrix] in
      bind (mapM (\<lambda>i. mapM (\<lambda>j.
              bind (get shuffledIndices i) (\<lambda>si.
              bind (get costMatrix si) (\<lambda>row.
              bind (get shuffledIndices j) (\<lambda>sj. get row sj)))) indices) indices)
        (\<lambda>shuffledCostMatrix.
           bind (index_of shuffledIndices start) (\<lambda>s. Inr (shuffledCostMatrix, s))))"

text \<open>
  \<open>_calc_total_cost\<close>: the sum of \<open>costMatrix[route[i]][route[i + 1]]\<close> over
  \<open>range(len(route) - 1)\<close>. The weights are Python integers; adding \<open>None\<close> raises.
\<close>

fun calc_total_cost :: "nat list \<Rightarrow> int option list list \<Rightarrow> error + int" where
  "calc_total_cost (a # b # rest) costMatrix =
     bind (get costMatrix a) (\<lambda>row.
     bind (get row b) (\<lambda>c.
       case c of None \<Rightarrow> Inl TypeError
       | Some x \<Rightarrow> bind (calc_total_cost (b # rest) costMatrix) (\<lambda>t. Inr (x + t))))"
| "calc_total_cost route costMatrix = Inr 0"
section \<open>Notions used in the statements\<close>

text \<open>An edge read in the other direction.\<close>

definition flip :: "nat \<times> nat \<times> 'w \<Rightarrow> nat \<times> nat \<times> 'w" where
  "flip e = (fst (snd e), fst e, snd (snd e))"

text \<open>
  A graph of the library lists no node twice and joins only nodes it has.
\<close>

definition well_formed :: "'w graph \<Rightarrow> bool" where
  "well_formed g = (distinct (nodes g)
     \<and> (\<forall>e \<in> set (edges g). fst e \<in> set (nodes g) \<and> fst (snd e) \<in> set (nodes g)))"

text \<open>
  The edges of a graph as pairs of ends; the number of edge ends at a vertex in a list of
  such pairs; a pair without its direction; the pairs of consecutive vertices of a walk.
\<close>

definition edge_pairs :: "'w graph \<Rightarrow> (nat \<times> nat) list" where
  "edge_pairs g = map (\<lambda>(u, v, w). (u, v)) (edges g)"

definition ends_at :: "(nat \<times> nat) list \<Rightarrow> nat \<Rightarrow> nat" where
  "ends_at R v = length (filter (\<lambda>e. fst e = v) R) + length (filter (\<lambda>e. snd e = v) R)"

definition upair :: "nat \<times> nat \<Rightarrow> nat \<times> nat" where
  "upair e = (min (fst e) (snd e), max (fst e) (snd e))"

definition upairs :: "(nat \<times> nat) list \<Rightarrow> (nat \<times> nat) multiset" where
  "upairs R = image_mset upair (mset R)"

definition walk_edges :: "nat list \<Rightarrow> (nat \<times> nat) list" where
  "walk_edges walk = zip walk (tl walk)"

section \<open>Basic facts\<close>

lemma bind_Inr [simp]: "bind (Inr x) f = f x"
  by (simp add: bind_def)

lemma bind_Inl [simp]: "bind (Inl e) f = Inl e"
  by (simp add: bind_def)

lemma get_Inr [simp]: "i < length xs \<Longrightarrow> get xs i = Inr (xs ! i)"
  by (simp add: get_def)

lemma mapM_Inr: "(\<And>x. x \<in> set xs \<Longrightarrow> f x = Inr (g x)) \<Longrightarrow> mapM f xs = Inr (map g xs)"
  by (induction xs) simp_all

lemma index_of_mem:
  "x \<in> set ys \<Longrightarrow> \<exists>i. index_of ys x = Inr i \<and> i < length ys \<and> ys ! i = x"
proof (induction ys)
  case Nil
  then show ?case by simp
next
  case (Cons y ys)
  show ?case
  proof (cases "y = x")
    case True
    then show ?thesis by simp
  next
    case False
    with Cons obtain i where "index_of ys x = Inr i" "i < length ys" "ys ! i = x" by auto
    with False show ?thesis by simp
  qed
qed

section \<open>The relabelled cost matrix\<close>

text \<open>
  C8. When \<open>shuffledIndices\<close> is a permutation of \<open>range(N)\<close>, the matrix is
  \<open>N \<times> N\<close> and the start vertex is below \<open>N\<close>, \<open>_shuffle_cost_matrix\<close>
  returns the matrix with \<open>relabeled[i][j] = original[perm[i]][perm[j]]\<close> and the
  position \<open>s\<close> of the start vertex in the permutation: \<open>perm[s] = start\<close>.
\<close>

theorem shuffle_cost_matrix_relabels:
  assumes perm: "mset shuffledIndices = mset [0 ..< length costMatrix]"
    and square: "\<forall>row \<in> set costMatrix. length row = length costMatrix"
    and start: "start < length costMatrix"
  shows "\<exists>shuffled s. shuffle_cost_matrix shuffledIndices costMatrix start = Inr (shuffled, s)
           \<and> length shuffled = length costMatrix
           \<and> (\<forall>i < length costMatrix. length (shuffled ! i) = length costMatrix
                \<and> (\<forall>j < length costMatrix.
                      shuffled ! i ! j = costMatrix ! (shuffledIndices ! i) ! (shuffledIndices ! j)))
           \<and> s < length costMatrix \<and> shuffledIndices ! s = start"
proof -
  let ?n = "length costMatrix"
  let ?p = shuffledIndices
  have len: "length ?p = ?n"
    using perm by (metis length_upt mset_eq_length minus_nat.diff_0)
  have setp: "set ?p = {0 ..< ?n}"
    using perm by (metis mset_eq_setD set_upt)
  have inrange: "?p ! i < ?n" if "i < ?n" for i
    using that len setp by (metis atLeastLessThan_iff nth_mem)
  have rowlen: "length (costMatrix ! k) = ?n" if "k < ?n" for k
    using that square by simp
  let ?cell = "\<lambda>i j. costMatrix ! (?p ! i) ! (?p ! j)"
  have cell: "bind (get ?p i) (\<lambda>si. bind (get costMatrix si) (\<lambda>row.
                bind (get ?p j) (\<lambda>sj. get row sj))) = Inr (?cell i j)"
    if "i < ?n" "j < ?n" for i j
    using that len inrange rowlen by simp
  have row: "mapM (\<lambda>j. bind (get ?p i) (\<lambda>si. bind (get costMatrix si) (\<lambda>row.
                bind (get ?p j) (\<lambda>sj. get row sj)))) [0 ..< ?n] = Inr (map (?cell i) [0 ..< ?n])"
    if "i < ?n" for i
    by (rule mapM_Inr) (use that cell in simp)
  have rows: "mapM (\<lambda>i. mapM (\<lambda>j. bind (get ?p i) (\<lambda>si. bind (get costMatrix si) (\<lambda>row.
                bind (get ?p j) (\<lambda>sj. get row sj)))) [0 ..< ?n]) [0 ..< ?n]
              = Inr (map (\<lambda>i. map (?cell i) [0 ..< ?n]) [0 ..< ?n])"
    by (rule mapM_Inr) (use row in simp)
  from start setp have "start \<in> set ?p" by simp
  then obtain s where s: "index_of ?p start = Inr s" "s < length ?p" "?p ! s = start"
    using index_of_mem by blast
  have "shuffle_cost_matrix ?p costMatrix start
          = Inr (map (\<lambda>i. map (?cell i) [0 ..< ?n]) [0 ..< ?n], s)"
    unfolding shuffle_cost_matrix_def Let_def by (simp add: rows s(1))
  with s len show ?thesis by simp
qed

theorem shuffle_cost_matrix_relabels_witness:
  "shuffle_cost_matrix [2, 0, 1::nat]
     [[None, Some 1, Some (3::int)], [Some 1, None, Some 2], [Some 3, Some 2, None]] 0
   = Inr ([[None, Some 3, Some 2], [Some 3, None, Some 1], [Some 2, Some 1, None]], 1)
   \<and> [2, 0, 1::nat] ! 1 = (0::nat)"
proof -
  let ?M = "[[None, Some 1, Some (3::int)], [Some 1, None, Some 2], [Some 3, Some 2, None]]"
  have "\<exists>shuffled s. shuffle_cost_matrix [2, 0, 1::nat] ?M 0 = Inr (shuffled, s)
           \<and> length shuffled = length ?M
           \<and> (\<forall>i < length ?M. length (shuffled ! i) = length ?M
                \<and> (\<forall>j < length ?M. shuffled ! i ! j = ?M ! ([2, 0, 1::nat] ! i) ! ([2, 0, 1::nat] ! j)))
           \<and> s < length ?M \<and> [2, 0, 1::nat] ! s = 0"
    by (rule shuffle_cost_matrix_relabels) (simp_all add: upt_rec)
  moreover have "shuffle_cost_matrix [2, 0, 1::nat] ?M 0
      = Inr ([[None, Some 3, Some 2], [Some 3, None, Some 1], [Some 2, Some 1, None]], 1)"
    by code_simp
  ultimately show ?thesis by simp
qed
section \<open>The doubled tree\<close>

lemma connected_rtrancl:
  "connected g \<longleftrightarrow> (\<forall>u \<in> set (nodes g). \<forall>v \<in> set (nodes g). (u, v) \<in> (adj_rel g)\<^sup>*)"
  unfolding connected_def by (metis rtrancl_eq_or_trancl)

lemma uedge_flip [simp]: "uedge (flip e) = uedge e"
  by (simp add: uedge_def flip_def min.commute max.commute)

lemma edges_fold_multi_add_edge:
  "edges (fold (\<lambda>(w, x) d. multi_add_edge v w x d) ps d) = edges d @ map (\<lambda>(w, x). (v, w, x)) ps"
  by (induction ps arbitrary: d) (auto simp: multi_add_edge_def)

lemma edges_fold_fold_multi_add_edge:
  "edges (fold (\<lambda>v d. fold (\<lambda>(w, x) d. multi_add_edge v w x d) (f v) d) ns d)
     = edges d @ concat (map (\<lambda>v. map (\<lambda>(w, x). (v, w, x)) (f v)) ns)"
  by (induction ns arbitrary: d) (auto simp: edges_fold_multi_add_edge)

lemma edges_duplicate:
  "edges (duplicate_weighted_graph g)
     = concat (map (\<lambda>v. map (\<lambda>(w, x). (v, w, x)) (adj g v)) (nodes g))"
  by (simp add: duplicate_weighted_graph_def edges_fold_fold_multi_add_edge empty_graph_def)

lemma mset_concat_map_append:
  "mset (concat (map (\<lambda>v. f v @ h v) ns)) = mset (concat (map f ns)) + mset (concat (map h ns))"
  by (induction ns) auto

lemma mset_concat_two_ends:
  "distinct ns \<Longrightarrow> a \<noteq> b \<Longrightarrow>
   mset (concat (map (\<lambda>v. if a = v then [X v] else if b = v then [Y v] else []) ns))
     = (if a \<in> set ns then {#X a#} else {#}) + (if b \<in> set ns then {#Y b#} else {#})"
  by (induction ns) auto


lemma adj_Nil: "adj (g\<lparr>edges := []\<rparr>) v = []"
  by (simp add: adj_def List.map_filter_def)

lemma adj_Cons:
  "adj (g\<lparr>edges := e # es\<rparr>) v =
     (if fst e = v then [(fst (snd e), snd (snd e))]
      else if fst (snd e) = v then [(fst e, snd (snd e))] else []) @ adj (g\<lparr>edges := es\<rparr>) v"
  by (simp add: adj_def List.map_filter_def)

lemma mset_adj_pairs:
  assumes "distinct ns"
    and "\<forall>e \<in> set es. fst e \<in> set ns \<and> fst (snd e) \<in> set ns \<and> fst e \<noteq> fst (snd e)"
  shows "mset (concat (map (\<lambda>v. map (\<lambda>(w, x). (v, w, x)) (adj (g\<lparr>edges := es\<rparr>) v)) ns))
           = mset es + mset (map flip es)"
  using assms(2)
proof (induction es)
  case Nil
  then show ?case by (simp add: adj_Nil)
next
  case (Cons e es)
  let ?a = "fst e" and ?b = "fst (snd e)" and ?w = "snd (snd e)"
  from Cons.prems have ab: "?a \<in> set ns" "?b \<in> set ns" "?a \<noteq> ?b" by auto
  have split: "(\<lambda>v. map (\<lambda>(w, x). (v, w, x)) (adj (g\<lparr>edges := e # es\<rparr>) v))
      = (\<lambda>v. (if ?a = v then [(v, ?b, ?w)] else if ?b = v then [(v, ?a, ?w)] else [])
              @ map (\<lambda>(w, x). (v, w, x)) (adj (g\<lparr>edges := es\<rparr>) v))"
    by (rule ext) (simp add: adj_Cons)
  have "mset (concat (map (\<lambda>v. if ?a = v then [(v, ?b, ?w)] else if ?b = v then [(v, ?a, ?w)] else []) ns))
          = {#(?a, ?b, ?w)#} + {#(?b, ?a, ?w)#}"
    using mset_concat_two_ends [OF assms(1) ab(3), of "\<lambda>v. (v, ?b, ?w)" "\<lambda>v. (v, ?a, ?w)"] ab by simp
  moreover have "mset (concat (map (\<lambda>v. map (\<lambda>(w, x). (v, w, x)) (adj (g\<lparr>edges := es\<rparr>) v)) ns))
          = mset es + mset (map flip es)"
    using Cons by simp
  ultimately show ?case
    unfolding split mset_concat_map_append by (simp add: flip_def [of e])
qed

lemma mset_edges_duplicate:
  assumes "simple_graph g"
  shows "mset (edges (duplicate_weighted_graph g)) = mset (edges g) + mset (map flip (edges g))"
proof -
  have "g\<lparr>edges := edges g\<rparr> = g" by simp
  with mset_adj_pairs [of "nodes g" "edges g" g] assms show ?thesis
    by (simp add: edges_duplicate simple_graph_def)
qed

lemma degree_mset:
  "degree g v = size (filter_mset (\<lambda>e. fst e = v) (mset (edges g)))
              + size (filter_mset (\<lambda>e. fst (snd e) = v) (mset (edges g)))"
  by (simp add: degree_def flip: mset_filter size_mset)

lemma filter_flip_fst: "filter (\<lambda>e. fst e = v) (map flip es) = map flip (filter (\<lambda>e. fst (snd e) = v) es)"
  by (induction es) (auto simp: flip_def)

lemma filter_flip_snd: "filter (\<lambda>e. fst (snd e) = v) (map flip es) = map flip (filter (\<lambda>e. fst e = v) es)"
  by (induction es) (auto simp: flip_def)

lemma degree_duplicate:
  assumes "simple_graph g"
  shows "degree (duplicate_weighted_graph g) v = 2 * degree g v"
proof -
  have len: "length (filter P xs) = size (filter_mset P (mset xs))" for P and xs :: "(nat \<times> nat \<times> 'a) list"
    by (metis mset_filter size_mset)
  have "length (filter (\<lambda>e. fst e = v) (map flip (edges g)))
          = length (filter (\<lambda>e. fst (snd e) = v) (edges g))"
    by (simp add: filter_flip_fst)
  moreover have "length (filter (\<lambda>e. fst (snd e) = v) (map flip (edges g)))
          = length (filter (\<lambda>e. fst e = v) (edges g))"
    by (simp add: filter_flip_snd)
  moreover have "degree (duplicate_weighted_graph g) v
      = length (filter (\<lambda>e. fst e = v) (edges g)) + length (filter (\<lambda>e. fst e = v) (map flip (edges g)))
      + (length (filter (\<lambda>e. fst (snd e) = v) (edges g)) + length (filter (\<lambda>e. fst (snd e) = v) (map flip (edges g))))"
    unfolding degree_def len mset_edges_duplicate [OF assms] by simp
  ultimately show ?thesis
    by (simp add: degree_def)
qed


lemma set_add_node [simp]: "set (add_node v ns) = insert v (set ns)"
  by (auto simp: add_node_def)

lemma set_map_filter_Some: "set (List.map_filter f xs) = {y. \<exists>x \<in> set xs. f x = Some y}"
  by (induction xs) (auto simp: List.map_filter_simps split: option.splits)

lemma nodes_fold_multi_add_edge:
  "set (nodes (fold (\<lambda>(w, x) d. multi_add_edge v w x d) ps d))
     = set (nodes d) \<union> (if ps = [] then {} else {v}) \<union> fst ` set ps"
  by (induction ps arbitrary: d) (auto simp: multi_add_edge_def)

lemma nodes_fold_fold_multi_add_edge:
  "set (nodes (fold (\<lambda>v d. fold (\<lambda>(w, x) d. multi_add_edge v w x d) (f v) d) ns d))
     = set (nodes d) \<union> {v \<in> set ns. f v \<noteq> []} \<union> (\<Union>v \<in> set ns. fst ` set (f v))"
  by (induction ns arbitrary: d) (auto simp: nodes_fold_multi_add_edge)

lemma set_adj:
  "set (adj g v) = {(w, x). (v, w, x) \<in> set (edges g) \<or> (w, v, x) \<in> set (edges g)}"
  unfolding adj_def set_map_filter_Some by (force split: if_splits)

lemma nodes_duplicate_subset:
  assumes "simple_graph g"
  shows "set (nodes (duplicate_weighted_graph g)) \<subseteq> set (nodes g)"
proof -
  have "fst ` set (adj g v) \<subseteq> set (nodes g)" for v
    using assms by (force simp: set_adj simple_graph_def)
  then show ?thesis
    by (auto simp: duplicate_weighted_graph_def nodes_fold_fold_multi_add_edge empty_graph_def)
qed

lemma adj_rel_duplicate:
  assumes "simple_graph g"
  shows "adj_rel (duplicate_weighted_graph g) = adj_rel g"
proof -
  have "set (edges (duplicate_weighted_graph g)) = set (edges g) \<union> flip ` set (edges g)"
    using mset_edges_duplicate [OF assms] by (metis set_mset_mset set_mset_union set_map)
  then show ?thesis
    by (auto simp: adj_rel_def flip_def image_Un image_image)
qed

text \<open>
  C5. For a graph without self-loops and parallel edges (every tree is one), the
  double-tree constructor returns a multigraph that holds every edge of the graph
  exactly twice, with its weight; the degree of every vertex is twice its degree in the
  graph; and the multigraph is connected when the graph is.
\<close>

theorem duplicate_weighted_graph_doubles:
  assumes "simple_graph g"
  shows "uedges (duplicate_weighted_graph g) = uedges g + uedges g
       \<and> (\<forall>v. degree (duplicate_weighted_graph g) v = 2 * degree g v)
       \<and> (connected g \<longrightarrow> connected (duplicate_weighted_graph g))"
proof -
  have "uedges (duplicate_weighted_graph g) = uedges g + uedges g"
    by (simp add: uedges_def mset_edges_duplicate [OF assms] multiset.map_comp comp_def)
  moreover have "connected g \<longrightarrow> connected (duplicate_weighted_graph g)"
    using nodes_duplicate_subset [OF assms]
    by (auto simp: connected_def adj_rel_duplicate [OF assms])
  ultimately show ?thesis
    using degree_duplicate [OF assms] by simp
qed

theorem duplicate_weighted_graph_doubles_witness:
  "edges (duplicate_weighted_graph \<lparr>nodes = [0, 1, 2], edges = [(0, 1, 1::int), (1, 2, 1)]\<rparr>)
     = [(0, 1, 1), (1, 0, 1), (1, 2, 1), (2, 1, 1)]
   \<and> uedges (duplicate_weighted_graph \<lparr>nodes = [0, 1, 2], edges = [(0, 1, 1::int), (1, 2, 1)]\<rparr>)
     = {#(0, 1, 1), (0, 1, 1), (1, 2, 1), (1, 2, 1)#}
   \<and> degree (duplicate_weighted_graph \<lparr>nodes = [0, 1, 2], edges = [(0, 1, 1::int), (1, 2, 1)]\<rparr>) 1 = 4
   \<and> connected (duplicate_weighted_graph \<lparr>nodes = [0, 1, 2], edges = [(0, 1, 1::int), (1, 2, 1)]\<rparr>)"
proof -
  let ?g = "\<lparr>nodes = [0, 1, 2], edges = [(0, 1, 1::int), (1, 2, 1)]\<rparr>"
  have simple: "simple_graph ?g"
    by (simp add: simple_graph_def)
  have conn: "connected ?g"
    by code_simp
  have deg: "degree ?g 1 = 2" and ue: "uedges ?g = {#(0, 1, 1), (1, 2, 1)#}"
    by (simp_all add: degree_def uedges_def uedge_def)
  have "edges (duplicate_weighted_graph ?g) = [(0, 1, 1), (1, 0, 1), (1, 2, 1), (2, 1, 1)]"
    by code_simp
  with duplicate_weighted_graph_doubles [OF simple] conn deg ue show ?thesis
    by simp
qed
section \<open>The Eulerian circuit\<close>

lemma upair_swap: "upair (a, b) = upair (b, a)"
  by (simp add: upair_def min.commute max.commute)

lemma upairs_Cons [simp]: "upairs (e # R) = add_mset (upair e) (upairs R)"
  by (simp add: upairs_def)

lemma upairs_Nil [simp]: "upairs [] = {#}"
  by (simp add: upairs_def)

lemma upairs_append [simp]: "upairs (R @ S) = upairs R + upairs S"
  by (simp add: upairs_def)

lemma ends_at_Nil [simp]: "ends_at [] v = 0"
  by (simp add: ends_at_def)

lemma ends_at_Cons:
  "ends_at ((a, b) # R) x = (if a = x then 1 else 0) + (if b = x then 1 else 0) + ends_at R x"
  by (simp add: ends_at_def)

lemma take_edge_None: "take_edge v R = None \<longleftrightarrow> ends_at R v = 0"
  by (induction R) (auto simp: ends_at_Cons split: if_splits)

lemma take_edge_Some:
  "take_edge v R = Some (w, R') \<Longrightarrow>
     upairs R = add_mset (upair (v, w)) (upairs R')
     \<and> (\<forall>x. ends_at R x = (if v = x then 1 else 0) + (if w = x then 1 else 0) + ends_at R' x)"
proof (induction R arbitrary: R')
  case Nil
  then show ?case by simp
next
  case (Cons e R)
  obtain a b where e: "e = (a, b)" by (cases e)
  show ?case
  proof (cases "a = v \<or> b = v")
    case True
    with Cons.prems e show ?thesis
      by (auto simp: ends_at_Cons upair_swap split: if_splits)
  next
    case False
    with Cons.prems e obtain R1 where R1: "take_edge v R = Some (w, R1)" "R' = (a, b) # R1"
      by (auto split: if_splits)
    from Cons.IH [OF R1(1)] R1(2) e False show ?thesis
      by (auto simp: ends_at_Cons)
  qed
qed

lemma walk_edges_Cons:
  "walk_edges (v # walk) = (if walk = [] then [] else (v, hd walk) # walk_edges walk)"
  by (cases walk) (simp_all add: walk_edges_def)

lemma walk_edges_single [simp]: "walk_edges [v] = []"
  by (simp add: walk_edges_def)

lemma walk_edges_Nil [simp]: "walk_edges [] = []"
  by (simp add: walk_edges_def)

lemma walk_edges_append:
  "c \<noteq> [] \<Longrightarrow> walk_edges (c @ rest) = walk_edges c @ walk_edges (last c # rest)"
proof (induction c)
  case Nil
  then show ?case by simp
next
  case (Cons a c)
  show ?case
  proof (cases "c = []")
    case True
    then show ?thesis by simp
  next
    case False
    with Cons.IH have "walk_edges (c @ rest) = walk_edges c @ walk_edges (last c # rest)" by simp
    with False show ?thesis by (simp add: walk_edges_Cons)
  qed
qed

text \<open>The walk from \<open>v\<close>: where it starts, what it uses, where it gets stuck.\<close>

lemma extend_walk_uses:
  "extend_walk v R = (walk, R') \<Longrightarrow>
     walk \<noteq> [] \<and> hd walk = v \<and> upairs R = upairs (walk_edges walk) + upairs R'
     \<and> ends_at R' (last walk) = 0"
proof (induction v R arbitrary: walk R' rule: extend_walk.induct)
  case (1 v R)
  show ?case
  proof (cases "take_edge v R")
    case None
    with "1.prems" have "walk = [v]" "R' = R" by (simp_all add: extend_walk.simps [of v R])
    with None show ?thesis by (simp add: take_edge_None)
  next
    case (Some p)
    obtain w R1 where p: "p = (w, R1)" by (cases p)
    obtain walk1 R2 where rec: "extend_walk w R1 = (walk1, R2)" by (cases "extend_walk w R1")
    from "1.prems" Some p rec have res: "walk = v # walk1" "R' = R2"
      by (simp_all add: extend_walk.simps [of v R])
    from "1.IH" [OF Some [unfolded p] refl rec]
    have ih: "walk1 \<noteq> []" "hd walk1 = w" "upairs R1 = upairs (walk_edges walk1) + upairs R2"
      "ends_at R2 (last walk1) = 0" by simp_all
    from take_edge_Some [OF Some [unfolded p]]
    have "upairs R = add_mset (upair (v, w)) (upairs R1)" by simp
    with ih res show ?thesis by (simp add: walk_edges_Cons)
  qed
qed

text \<open>
  Parity: while a walk that began at \<open>t\<close> stands at \<open>v\<close>, the vertices with an odd
  number of unused edge ends are \<open>v\<close> and \<open>t\<close> when they differ, and none when they are
  the same. So the walk can only get stuck at \<open>t\<close>.
\<close>

lemma extend_walk_returns:
  "extend_walk v R = (walk, R') \<Longrightarrow> (\<forall>x. odd (ends_at R x) \<longleftrightarrow> (x = v) \<noteq> (x = t)) \<Longrightarrow>
     last walk = t \<and> (\<forall>x. even (ends_at R' x))"
proof (induction v R arbitrary: walk R' rule: extend_walk.induct)
  case (1 v R)
  show ?case
  proof (cases "take_edge v R")
    case None
    with "1.prems"(1) have res: "walk = [v]" "R' = R" by (simp_all add: extend_walk.simps [of v R])
    from None have "ends_at R v = 0" by (simp add: take_edge_None)
    with "1.prems"(2) have "v = t" by (metis even_zero)
    with res "1.prems"(2) show ?thesis by auto
  next
    case (Some p)
    obtain w R1 where p: "p = (w, R1)" by (cases p)
    obtain walk1 R2 where rec: "extend_walk w R1 = (walk1, R2)" by (cases "extend_walk w R1")
    from "1.prems"(1) Some p rec have res: "walk = v # walk1" "R' = R2"
      by (simp_all add: extend_walk.simps [of v R])
    from take_edge_Some [OF Some [unfolded p]]
    have ends: "ends_at R x = (if v = x then 1 else 0) + (if w = x then 1 else 0) + ends_at R1 x" for x
      by simp
    have par: "odd (ends_at R1 x) \<longleftrightarrow> (x = w) \<noteq> (x = t)" for x
      using "1.prems"(2) [rule_format, of x] ends [of x] by (auto split: if_splits)
    from "1.IH" [OF Some [unfolded p] refl rec] par
    have "last walk1 = t" "\<forall>x. even (ends_at R2 x)" by simp_all
    moreover from extend_walk_uses [OF rec] have "walk1 \<noteq> []" by simp
    ultimately show ?thesis using res by simp
  qed
qed

lemma extend_walk_ends_le: "extend_walk v R = (walk, R') \<Longrightarrow> ends_at R' x \<le> ends_at R x"
proof (induction v R arbitrary: walk R' rule: extend_walk.induct)
  case (1 v R)
  show ?case
  proof (cases "take_edge v R")
    case None
    with "1.prems" show ?thesis by (simp add: extend_walk.simps [of v R])
  next
    case (Some p)
    obtain w R1 where p: "p = (w, R1)" by (cases p)
    obtain walk1 R2 where rec: "extend_walk w R1 = (walk1, R2)" by (cases "extend_walk w R1")
    from "1.prems" Some p rec have "R' = R2" by (simp add: extend_walk.simps [of v R])
    moreover from "1.IH" [OF Some [unfolded p] refl rec] have "ends_at R2 x \<le> ends_at R1 x" .
    moreover from take_edge_Some [OF Some [unfolded p]] have "ends_at R1 x \<le> ends_at R x" by simp
    ultimately show ?thesis by simp
  qed
qed

text \<open>
  Splicing: when every vertex has an even number of unused edge ends, the walk that comes
  out starts and ends where the given walk does, uses the edges of the given walk and the
  edges that were consumed, and leaves no unused edge at any of its vertices.
\<close>

lemma splice_circuits_walk:
  "splice_circuits todo R = (out, R') \<Longrightarrow> (\<forall>x. even (ends_at R x)) \<Longrightarrow>
     (\<forall>x. even (ends_at R' x)) \<and> (\<forall>x. ends_at R' x \<le> ends_at R x)
     \<and> upairs (walk_edges out) + upairs R' = upairs (walk_edges todo) + upairs R
     \<and> (out = [] \<longleftrightarrow> todo = [])
     \<and> (todo \<noteq> [] \<longrightarrow> hd out = hd todo \<and> last out = last todo)
     \<and> (\<forall>x \<in> set out. ends_at R' x = 0)"
proof (induction todo R arbitrary: out R' rule: splice_circuits.induct)
  case (1 R)
  then show ?case by (simp add: splice_circuits.simps)
next
  case (2 v rest R)
  show ?case
  proof (cases "take_edge v R \<noteq> None")
    case True
    obtain c R1 where ext: "extend_walk v R = (c, R1)" by (cases "extend_walk v R")
    from "2.prems"(1) True ext have rec: "splice_circuits (c @ rest) R1 = (out, R')"
      by (simp add: splice_circuits.simps)
    from extend_walk_uses [OF ext]
    have c: "c \<noteq> []" "hd c = v" "upairs R = upairs (walk_edges c) + upairs R1" by simp_all
    from "2.prems"(2) have "\<forall>x. odd (ends_at R x) \<longleftrightarrow> (x = v) \<noteq> (x = v)" by simp
    from extend_walk_returns [OF ext this]
    have ret: "last c = v" and even1: "\<forall>x. even (ends_at R1 x)" by simp_all
    from "2.IH"(1) [OF True ext [symmetric] rec even1]
    have ih: "\<forall>x. even (ends_at R' x)" "\<forall>x. ends_at R' x \<le> ends_at R1 x"
      "upairs (walk_edges out) + upairs R' = upairs (walk_edges (c @ rest)) + upairs R1"
      "out \<noteq> []" "hd out = hd (c @ rest)" "last out = last (c @ rest)"
      "\<forall>x \<in> set out. ends_at R' x = 0"
      using c(1) by simp_all
    have "walk_edges (c @ rest) = walk_edges c @ walk_edges (v # rest)"
      using walk_edges_append [OF c(1), of rest] ret by simp
    with ih(3) c(3)
    have "upairs (walk_edges out) + upairs R' = upairs (walk_edges (v # rest)) + upairs R"
      by simp
    moreover have "\<forall>x. ends_at R' x \<le> ends_at R x"
      using ih(2) extend_walk_ends_le [OF ext] by (meson le_trans)
    moreover have "hd out = v" using ih(5) c by simp
    moreover have "last out = last (v # rest)" using ih(6) c(1) ret by simp
    ultimately show ?thesis using ih(1,4,7) by simp
  next
    case False
    obtain out1 R1 where rec: "splice_circuits rest R = (out1, R1)"
      by (cases "splice_circuits rest R")
    from "2.prems"(1) False rec have res: "out = v # out1" "R' = R1"
      by (simp_all add: splice_circuits.simps)
    from "2.IH"(2) [OF False rec "2.prems"(2)]
    have ih: "\<forall>x. even (ends_at R1 x)" "\<forall>x. ends_at R1 x \<le> ends_at R x"
      "upairs (walk_edges out1) + upairs R1 = upairs (walk_edges rest) + upairs R"
      "out1 = [] \<longleftrightarrow> rest = []" "rest \<noteq> [] \<longrightarrow> hd out1 = hd rest \<and> last out1 = last rest"
      "\<forall>x \<in> set out1. ends_at R1 x = 0"
      by simp_all
    from False have "ends_at R v = 0" by (simp add: take_edge_None)
    with ih(2) have "ends_at R1 v = 0" by (metis le_zero_eq)
    moreover have "upairs (walk_edges (v # out1)) + upairs R1 = upairs (walk_edges (v # rest)) + upairs R"
      using ih(3,4,5) by (auto simp: walk_edges_Cons)
    ultimately show ?thesis using res ih by auto
  qed
qed

lemma in_upairs: "u \<in># upairs R \<longleftrightarrow> (\<exists>e \<in> set R. upair e = u)"
  by (auto simp: upairs_def)

lemma upair_eq: "upair e = upair (x, y) \<longleftrightarrow> e = (x, y) \<or> e = (y, x)"
  by (cases e) (auto simp: upair_def min_def max_def split: if_splits)

lemma ends_at_pos: "(a, b) \<in> set R \<Longrightarrow> 0 < ends_at R a \<and> 0 < ends_at R b"
  by (induction R) (auto simp: ends_at_Cons)

lemma walk_edges_in_walk: "(p, q) \<in> set (walk_edges walk) \<Longrightarrow> p \<in> set walk \<and> q \<in> set walk"
  unfolding walk_edges_def by (metis in_set_zipE list.set_sel(2) tl_Nil empty_iff empty_set)

lemma degree_ends_at: "degree g v = ends_at (edge_pairs g) v"
  by (simp add: degree_def ends_at_def edge_pairs_def filter_map comp_def case_prod_beta)

lemma edge_pairs_map: "edge_pairs g = map (\<lambda>e. (fst e, fst (snd e))) (edges g)"
  by (simp add: edge_pairs_def case_prod_beta)

lemma adj_rel_edge_pairs: "adj_rel g = set (edge_pairs g) \<union> (\<lambda>p. (snd p, fst p)) ` set (edge_pairs g)"
  by (simp add: adj_rel_def edge_pairs_map image_image)

text \<open>
  In a connected graph, a closed walk from the source that leaves no unused edge at any
  of its vertices has used every edge.
\<close>

lemma all_edges_used:
  assumes wf: "well_formed g" and conn: "connected g" and src: "source \<in> set walk"
    and src_node: "source \<in> set (nodes g)"
    and split: "upairs (walk_edges walk) + upairs R' = upairs (edge_pairs g)"
    and stuck: "\<forall>x \<in> set walk. ends_at R' x = 0"
  shows "R' = []"
proof (rule ccontr)
  assume "R' \<noteq> []"
  then obtain a b where ab: "(a, b) \<in> set R'" by (cases R') auto
  then have "0 < ends_at R' a" by (simp add: ends_at_pos)
  with stuck have a_out: "a \<notin> set walk" by auto
  from ab have "upair (a, b) \<in># upairs R'" by (auto simp: in_upairs)
  with split have "upair (a, b) \<in># upairs (edge_pairs g)" by (metis union_iff)
  then obtain e where e: "e \<in> set (edge_pairs g)" "upair e = upair (a, b)"
    by (auto simp: in_upairs)
  then have "(a, b) \<in> set (edge_pairs g) \<or> (b, a) \<in> set (edge_pairs g)"
    by (auto simp: upair_eq)
  with wf have "a \<in> set (nodes g)"
    by (force simp: well_formed_def edge_pairs_def)
  with conn src_node have reach: "(source, a) \<in> (adj_rel g)\<^sup>*"
    unfolding connected_def by (metis rtrancl_eq_or_trancl)
  have closed: "y \<in> set walk" if x: "x \<in> set walk" and xy: "(x, y) \<in> adj_rel g" for x y
  proof -
    from xy have "(x, y) \<in> set (edge_pairs g) \<or> (y, x) \<in> set (edge_pairs g)"
      by (force simp: adj_rel_edge_pairs)
    then have "upair (x, y) \<in># upairs (edge_pairs g)"
      by (auto simp: in_upairs upair_eq)
    with split have "upair (x, y) \<in># upairs (walk_edges walk) \<or> upair (x, y) \<in># upairs R'"
      by (metis union_iff)
    moreover have "upair (x, y) \<notin># upairs R'"
    proof
      assume "upair (x, y) \<in># upairs R'"
      then have "(x, y) \<in> set R' \<or> (y, x) \<in> set R'"
        by (auto simp: in_upairs upair_eq)
      then have "0 < ends_at R' x" using ends_at_pos by blast
      with stuck x show False by auto
    qed
    ultimately have "(x, y) \<in> set (walk_edges walk) \<or> (y, x) \<in> set (walk_edges walk)"
      by (auto simp: in_upairs upair_eq)
    then show ?thesis using walk_edges_in_walk by blast
  qed
  from reach src have "a \<in> set walk"
    by (induction rule: rtrancl_induct) (auto intro: closed)
  with a_out show False by contradiction
qed

lemma walk_of_walk_edges:
  assumes "2 \<le> length walk"
  shows "map fst (walk_edges walk) @ [snd (walk_edges walk ! (length (walk_edges walk) - 1))] = walk"
proof -
  have len: "length (walk_edges walk) = length walk - 1"
    by (simp add: walk_edges_def)
  have "map fst (walk_edges walk) = butlast walk"
    unfolding walk_edges_def by (cases walk) (simp_all add: butlast_conv_take map_fst_zip_take min_def)
  moreover have "snd (walk_edges walk ! (length walk - 2)) = last walk"
  proof -
    from assms have ne: "walk \<noteq> []" by auto
    from assms have "snd (walk_edges walk ! (length walk - 2)) = walk ! (length walk - 1)"
      unfolding walk_edges_def by (simp add: nth_tl Suc_diff_Suc numeral_2_eq_2)
    with ne show ?thesis by (simp add: last_conv_nth)
  qed
  moreover have "length (walk_edges walk) - 1 = length walk - 2"
    using len by simp
  ultimately show ?thesis
    using assms by (metis append_butlast_last_id length_0_conv not_numeral_le_zero)
qed

lemma nx_eulerian_circuit_walk:
  assumes wf: "well_formed g" and eul: "is_eulerian g" and src: "source \<in> set (nodes g)"
  shows "\<exists>walk. nx_eulerian_circuit g source = Inr (walk_edges walk)
           \<and> walk \<noteq> [] \<and> hd walk = source \<and> last walk = source
           \<and> upairs (walk_edges walk) = upairs (edge_pairs g)"
proof -
  obtain walk R' where sp: "splice_circuits [source] (edge_pairs g) = (walk, R')"
    by (cases "splice_circuits [source] (edge_pairs g)")
  have even_all: "\<forall>x. even (ends_at (edge_pairs g) x)"
  proof
    fix x
    show "even (ends_at (edge_pairs g) x)"
    proof (cases "x \<in> set (nodes g)")
      case True
      with eul show ?thesis by (simp add: is_eulerian_def degree_ends_at)
    next
      case False
      with wf have "ends_at (edge_pairs g) x = 0"
        by (auto simp: well_formed_def ends_at_def edge_pairs_def filter_empty_conv)
      then show ?thesis by simp
    qed
  qed
  from splice_circuits_walk [OF sp even_all]
  have w: "upairs (walk_edges walk) + upairs R' = upairs (edge_pairs g)"
    "walk \<noteq> []" "hd walk = source" "last walk = source" "\<forall>x \<in> set walk. ends_at R' x = 0"
    by simp_all
  from w(2,3) have "source \<in> set walk" by (metis hd_in_set)
  from all_edges_used [OF wf _ this src w(1) w(5)] eul have "R' = []"
    by (simp add: is_eulerian_def)
  with w(1) have "upairs (walk_edges walk) = upairs (edge_pairs g)" by simp
  moreover have "nx_eulerian_circuit g source = Inr (walk_edges walk)"
    using eul src sp by (simp add: nx_eulerian_circuit_def edge_pairs_def walk_edges_def)
  ultimately show ?thesis using w by blast
qed

lemma length_walk_edges: "length (walk_edges walk) = length walk - 1"
  by (simp add: walk_edges_def)

lemma create_eulerian_path_walk:
  assumes wf: "well_formed g" and eul: "is_eulerian g" and src: "start \<in> set (nodes g)"
    and edges: "edges g \<noteq> []"
  shows "\<exists>path. create_eulerian_path g start = Inr path
           \<and> length path = length (edges g) + 1 \<and> hd path = start \<and> last path = start
           \<and> upairs (walk_edges path) = upairs (edge_pairs g)"
proof -
  from nx_eulerian_circuit_walk [OF wf eul src] obtain walk where
    w: "nx_eulerian_circuit g start = Inr (walk_edges walk)" "hd walk = start" "last walk = start"
       "upairs (walk_edges walk) = upairs (edge_pairs g)"
    by blast
  from w(4) have "size (upairs (walk_edges walk)) = size (upairs (edge_pairs g))" by simp
  then have len: "length walk - 1 = length (edges g)"
    by (simp add: upairs_def length_walk_edges edge_pairs_def)
  with edges have two: "2 \<le> length walk" by (cases "edges g") auto
  then have "0 < length (walk_edges walk)" by (simp add: length_walk_edges)
  then have "create_eulerian_path g start
      = Inr (map fst (walk_edges walk) @ [snd (walk_edges walk ! (length (walk_edges walk) - 1))])"
    by (simp add: create_eulerian_path_def w(1))
  then have "create_eulerian_path g start = Inr walk"
    using walk_of_walk_edges [OF two] by simp
  with w len two show ?thesis by auto
qed

text \<open>
  C6. On a connected multigraph with \<open>E \<ge> 1\<close> edges in which every vertex has even
  degree, for every start vertex of the graph, \<open>_create_eulerian_path\<close> returns a sequence
  of \<open>E + 1\<close> vertices that begins and ends at the start vertex and whose consecutive pairs
  are, as undirected edges counted with multiplicity, exactly the edges of the multigraph.
  On a multigraph that is disconnected or has a vertex of odd degree it is the fatal
  \<open>NotEulerian\<close> error.
\<close>

theorem create_eulerian_path_traverses_every_edge_once:
  "(well_formed g \<and> connected g \<and> (\<forall>v \<in> set (nodes g). even (degree g v))
      \<and> edges g \<noteq> [] \<and> start \<in> set (nodes g)
    \<longrightarrow> (\<exists>path. create_eulerian_path g start = Inr path
           \<and> length path = length (edges g) + 1 \<and> hd path = start \<and> last path = start
           \<and> upairs (walk_edges path) = upairs (edge_pairs g)))
   \<and> (\<not> connected g \<or> (\<exists>v \<in> set (nodes g). odd (degree g v))
    \<longrightarrow> create_eulerian_path g start = Inl NotEulerian)"
proof (intro conjI impI)
  assume a: "well_formed g \<and> connected g \<and> (\<forall>v \<in> set (nodes g). even (degree g v))
      \<and> edges g \<noteq> [] \<and> start \<in> set (nodes g)"
  then have "is_eulerian g" by (auto simp: is_eulerian_def)
  with a show "\<exists>path. create_eulerian_path g start = Inr path
           \<and> length path = length (edges g) + 1 \<and> hd path = start \<and> last path = start
           \<and> upairs (walk_edges path) = upairs (edge_pairs g)"
    using create_eulerian_path_walk by blast
next
  assume "\<not> connected g \<or> (\<exists>v \<in> set (nodes g). odd (degree g v))"
  then have "\<not> is_eulerian g" by (auto simp: is_eulerian_def)
  then show "create_eulerian_path g start = Inl NotEulerian"
    by (simp add: create_eulerian_path_def nx_eulerian_circuit_def)
qed

theorem create_eulerian_path_traverses_every_edge_once_witness:
  "create_eulerian_path \<lparr>nodes = [0, 1, 2], edges = [(0, 1, 5::int), (1, 0, 5), (1, 2, 7), (2, 1, 7)]\<rparr> 0
     = Inr [0, 1, 2, 1, 0]
   \<and> upairs (walk_edges [0, 1, 2, 1, 0]) = {#(0, 1), (0, 1), (1, 2), (1, 2)#}
   \<and> create_eulerian_path \<lparr>nodes = [0, 1, 2], edges = [(0, 1, 5::int), (1, 2, 7)]\<rparr> 0
     = Inl NotEulerian"
proof -
  let ?g = "\<lparr>nodes = [0, 1, 2], edges = [(0, 1, 5::int), (1, 0, 5), (1, 2, 7), (2, 1, 7)]\<rparr>"
  let ?h = "\<lparr>nodes = [0, 1, 2], edges = [(0, 1, 5::int), (1, 2, 7)]\<rparr>"
  have pre: "well_formed ?g \<and> connected ?g \<and> (\<forall>v \<in> set (nodes ?g). even (degree ?g v))
      \<and> edges ?g \<noteq> [] \<and> 0 \<in> set (nodes ?g)"
    by code_simp
  have odd: "\<not> connected ?h \<or> (\<exists>v \<in> set (nodes ?h). odd (degree ?h v))"
    by code_simp
  have run: "create_eulerian_path ?g 0 = Inr [0, 1, 2, 1, 0]"
    by code_simp
  have ue: "upairs (walk_edges [0, 1, 2, 1, 0]) = {#(0, 1), (0, 1), (1, 2), (1, 2)#}"
    by (simp add: walk_edges_def upair_def numeral_2_eq_2)
  from create_eulerian_path_traverses_every_edge_once [of ?g 0] pre
  have ex: "\<exists>path. create_eulerian_path ?g 0 = Inr path
           \<and> length path = length (edges ?g) + 1 \<and> hd path = 0 \<and> last path = 0
           \<and> upairs (walk_edges path) = upairs (edge_pairs ?g)"
    by blast
  from create_eulerian_path_traverses_every_edge_once [of ?h 0] odd
  have no: "create_eulerian_path ?h 0 = Inl NotEulerian"
    by blast
  from ex run ue no show ?thesis by blast
qed


end
